theory Spec2Isabelle
  imports
    Complex_Main
    "HOL-Library.Sublist"
    "HOL-Library.Multiset"
    "HOL-Library.Product_Lexorder"
    "HOL-Library.List_Lexorder"
begin

section \<open>Values\<close>

text \<open>
  The query engine of \<^verbatim>\<open>vercel_app.py\<close> (\<^verbatim>\<open>filter_income\<close>, \<^verbatim>\<open>sort_income\<close> and the
  body of \<^verbatim>\<open>filter_sort_income\<close>) works on values decoded from JSON.

  A Python float is only ever compared here, never computed with, and Python compares
  numbers of different types by their exact value; so a finite float is represented by
  the rational it denotes, next to the two infinities (\<^verbatim>\<open>float('inf')\<close> is the default of
  the numeric filter). The not-a-number float is not part of the model: no JSON number
  denotes it.

  A record of the dataset maps field names to scalars; a value of the query may also be
  an array or an object (the documented shape of \<^verbatim>\<open>fields\<close> is an object of two-element
  arrays). Strings are lists of 8-bit characters, read as the code points 0 to 255.
\<close>

datatype pyfloat = NegInf | Fin rat | PosInf

datatype scalar = VNone | VBool bool | VInt int | VFloat pyfloat | VStr string

datatype jval = JScalar scalar | JArray "jval list" | JObject "(string \<times> jval) list"

text \<open>A Python dict in insertion order; \<^verbatim>\<open>d.get(k)\<close> and \<^verbatim>\<open>k in d\<close> are \<open>map_of\<close>.\<close>

type_synonym income_record = "(string \<times> scalar) list"

text \<open>
  The exceptions the engine can raise. \<open>InvalidField f\<close> is the
  \<^verbatim>\<open>ValueError(f"Invalid field '{field}'. ...")\<close> of \<^verbatim>\<open>sort_income\<close>; \<open>ValueError\<close> is the one
  \<^verbatim>\<open>int()\<close> raises on a string that is no integer literal; \<open>InvalidFieldValue v\<close> is the
  first one again when the field handed to \<^verbatim>\<open>sort_income\<close> is the non-string \<open>v\<close>.
\<close>

datatype pyerror =
  TypeError | ValueError | InvalidField string | InvalidFieldValue scalar
  | KeyError string | AttributeError

section \<open>Python's comparisons\<close>

fun fle :: "pyfloat \<Rightarrow> pyfloat \<Rightarrow> bool" where
  "fle NegInf _ = True"
| "fle (Fin a) NegInf = False"
| "fle (Fin a) (Fin b) = (a \<le> b)"
| "fle (Fin a) PosInf = True"
| "fle PosInf PosInf = True"
| "fle PosInf _ = False"

definition flt :: "pyfloat \<Rightarrow> pyfloat \<Rightarrow> bool" where
  "flt a b = (\<not> fle b a)"

text \<open>\<^verbatim>\<open>bool\<close> is a subclass of \<^verbatim>\<open>int\<close>: \<^verbatim>\<open>True\<close> compares as 1 and \<^verbatim>\<open>False\<close> as 0.\<close>

fun num_val :: "scalar \<Rightarrow> pyfloat option" where
  "num_val (VBool b) = Some (Fin (if b then 1 else 0))"
| "num_val (VInt i) = Some (Fin (of_int i))"
| "num_val (VFloat f) = Some f"
| "num_val VNone = None"
| "num_val (VStr s) = None"

text \<open>Strings compare lexicographically by code point.\<close>

fun str_lt :: "string \<Rightarrow> string \<Rightarrow> bool" where
  "str_lt [] [] = False"
| "str_lt [] (d # ds) = True"
| "str_lt (c # cs) [] = False"
| "str_lt (c # cs) (d # ds) =
     ((of_char c :: nat) < of_char d \<or> (c = d \<and> str_lt cs ds))"

definition str_le :: "string \<Rightarrow> string \<Rightarrow> bool" where
  "str_le s t = (\<not> str_lt t s)"

text \<open>
  \<^verbatim>\<open>a <= b\<close> and \<^verbatim>\<open>a < b\<close> on scalars: two numbers, or two strings; anything else
  (\<^verbatim>\<open>None\<close> included, also against itself) raises \<^verbatim>\<open>TypeError\<close>.
\<close>

fun py_le :: "scalar \<Rightarrow> scalar \<Rightarrow> pyerror + bool" where
  "py_le (VStr s) (VStr t) = Inr (str_le s t)"
| "py_le a b =
     (case (num_val a, num_val b) of
        (Some x, Some y) \<Rightarrow> Inr (fle x y)
      | _ \<Rightarrow> Inl TypeError)"

fun py_lt :: "scalar \<Rightarrow> scalar \<Rightarrow> pyerror + bool" where
  "py_lt (VStr s) (VStr t) = Inr (str_lt s t)"
| "py_lt a b =
     (case (num_val a, num_val b) of
        (Some x, Some y) \<Rightarrow> Inr (flt x y)
      | _ \<Rightarrow> Inl TypeError)"


text \<open>
  A bound of a filter is any JSON value, the record's side is a scalar. A list or a dict
  against a number, a string or \<^verbatim>\<open>None\<close> raises \<^verbatim>\<open>TypeError\<close>.
\<close>

fun jle_left :: "jval \<Rightarrow> scalar \<Rightarrow> pyerror + bool" where
  "jle_left (JScalar a) v = py_le a v"
| "jle_left (JArray xs) v = Inl TypeError"
| "jle_left (JObject kvs) v = Inl TypeError"

fun jle_right :: "scalar \<Rightarrow> jval \<Rightarrow> pyerror + bool" where
  "jle_right v (JScalar b) = py_le v b"
| "jle_right v (JArray xs) = Inl TypeError"
| "jle_right v (JObject kvs) = Inl TypeError"

text \<open>
  The chained comparison \<^verbatim>\<open>lo <= v <= hi\<close> is \<^verbatim>\<open>lo <= v and v <= hi\<close> with \<^verbatim>\<open>v\<close>
  evaluated once: the second comparison is not made when the first is false.
\<close>

definition chain_le :: "jval \<Rightarrow> scalar \<Rightarrow> jval \<Rightarrow> pyerror + bool" where
  "chain_le lo v hi =
     (case jle_left lo v of
        Inl e \<Rightarrow> Inl e
      | Inr False \<Rightarrow> Inr False
      | Inr True \<Rightarrow> jle_right v hi)"

section \<open>Python's \<^verbatim>\<open>int()\<close> on a string\<close>

text \<open>
  \<^verbatim>\<open>int(s)\<close> for a string: optional surrounding whitespace, an optional sign, then decimal
  digits, where a single underscore may stand between two digits. Among the code points
  below 256 the whitespace is tab, line feed, vertical tab, form feed, carriage return,
  space, U+0085 and U+00A0, and the decimal digits are \<^verbatim>\<open>0\<close> to \<^verbatim>\<open>9\<close>.
\<close>

definition py_isspace :: "char \<Rightarrow> bool" where
  "py_isspace c = ((of_char c :: nat) \<in> {9, 10, 11, 12, 13, 32, 133, 160})"

definition is_digit :: "char \<Rightarrow> bool" where
  "is_digit c = (48 \<le> (of_char c :: nat) \<and> (of_char c :: nat) \<le> 57)"

definition digit_val :: "char \<Rightarrow> int" where
  "digit_val c = int (of_char c) - 48"

text \<open>The digits after the first one; \<open>acc\<close> is the value read so far.\<close>

fun parse_digits :: "int \<Rightarrow> string \<Rightarrow> int option" where
  "parse_digits acc [] = Some acc"
| "parse_digits acc (c # cs) =
     (if is_digit c then parse_digits (acc * 10 + digit_val c) cs
      else if c = CHR ''_'' then
        (case cs of
           [] \<Rightarrow> None
         | d # ds \<Rightarrow>
             if is_digit d then parse_digits (acc * 10 + digit_val d) ds else None)
      else if list_all py_isspace (c # cs) then Some acc
      else None)"

definition parse_unsigned :: "string \<Rightarrow> int option" where
  "parse_unsigned s =
     (case s of
        [] \<Rightarrow> None
      | c # cs \<Rightarrow> if is_digit c then parse_digits (digit_val c) cs else None)"

definition py_int :: "string \<Rightarrow> int option" where
  "py_int s =
     (case dropWhile py_isspace s of
        [] \<Rightarrow> None
      | c # cs \<Rightarrow>
          if c = CHR ''-'' then map_option uminus (parse_unsigned cs)
          else if c = CHR ''+'' then parse_unsigned cs
          else parse_unsigned (c # cs))"

text \<open>
  \<^verbatim>\<open>int(v[:4])\<close>: slicing anything but a string raises \<^verbatim>\<open>TypeError\<close> (a number or \<^verbatim>\<open>None\<close> is
  not subscriptable).
\<close>

fun int_of_prefix4 :: "scalar \<Rightarrow> pyerror + int" where
  "int_of_prefix4 (VStr s) =
     (case py_int (take 4 s) of None \<Rightarrow> Inl ValueError | Some n \<Rightarrow> Inr n)"
| "int_of_prefix4 v = Inl TypeError"

section \<open>The filter engine\<close>

text \<open>\<^verbatim>\<open>record.get(field, default)\<close>\<close>

definition get_default :: "income_record \<Rightarrow> string \<Rightarrow> scalar \<Rightarrow> scalar" where
  "get_default r k d = (case map_of r k of None \<Rightarrow> d | Some v \<Rightarrow> v)"

definition endswith :: "string \<Rightarrow> string \<Rightarrow> bool" where
  "endswith s suf = (length suf \<le> length s \<and> drop (length s - length suf) s = suf)"

text \<open>
  A list comprehension with a condition that may raise: the records are tested in order
  and the first exception ends the whole comprehension.
\<close>

fun filterM :: "('a \<Rightarrow> pyerror + bool) \<Rightarrow> 'a list \<Rightarrow> pyerror + 'a list" where
  "filterM p [] = Inr []"
| "filterM p (x # xs) =
     (case p x of
        Inl e \<Rightarrow> Inl e
      | Inr b \<Rightarrow>
          (case filterM p xs of
             Inl e \<Rightarrow> Inl e
           | Inr ys \<Rightarrow> Inr (if b then x # ys else ys)))"

text \<open>
  \<^verbatim>\<open>int(record.get("date", "0000-00-00")[:4])\<close>, the year of a record in the date filter.
\<close>

definition record_year :: "income_record \<Rightarrow> pyerror + int" where
  "record_year r = int_of_prefix4 (get_default r ''date'' (VStr ''0000-00-00''))"

text \<open>
  The condition of the two comprehensions of \<^verbatim>\<open>filter_income\<close>, for the base field and
  the two bounds.
\<close>

definition range_cond :: "string \<Rightarrow> jval \<Rightarrow> jval \<Rightarrow> income_record \<Rightarrow> pyerror + bool" where
  "range_cond base_field min_value max_value r =
     (if base_field = ''date'' then
        (case record_year r of
           Inl e \<Rightarrow> Inl e
         | Inr y \<Rightarrow> chain_le min_value (VInt y) max_value)
      else chain_le min_value (get_default r base_field (VFloat PosInf)) max_value)"

text \<open>
  The loop over \<^verbatim>\<open>filter_fields.items()\<close>: the first argument is the whole dict (for
  \<^verbatim>\<open>filter_fields.get\<close>), the second the items still to visit.
\<close>

fun filter_loop ::
  "(string \<times> jval) list \<Rightarrow> (string \<times> jval) list \<Rightarrow> income_record list
     \<Rightarrow> pyerror + income_record list" where
  "filter_loop filter_fields [] filtered_data = Inr filtered_data"
| "filter_loop filter_fields ((field, val) # rest) filtered_data =
     (if endswith field ''_min'' then
        (case map_of filter_fields (take (length field - 4) field @ ''_max'') of
           None \<Rightarrow> filter_loop filter_fields rest filtered_data
         | Some max_value \<Rightarrow>
             if max_value = JScalar VNone then filter_loop filter_fields rest filtered_data
             else
               (case filterM (range_cond (take (length field - 4) field) val max_value)
                       filtered_data of
                  Inl e \<Rightarrow> Inl e
                | Inr kept \<Rightarrow> filter_loop filter_fields rest kept))
      else filter_loop filter_fields rest filtered_data)"

definition filter_income ::
  "income_record list \<Rightarrow> (string \<times> jval) list \<Rightarrow> pyerror + income_record list" where
  "filter_income data filter_fields = filter_loop filter_fields filter_fields data"

section \<open>The sort engine\<close>

text \<open>
  The key function of \<^verbatim>\<open>sort_income\<close>:
  \<^verbatim>\<open>int(x[field][:4]) if field == 'date' and isinstance(x[field], str) else x[field]\<close>.
  \<^verbatim>\<open>x[field]\<close> raises \<^verbatim>\<open>KeyError\<close> on a record without the field.
\<close>

definition sort_key_of :: "string \<Rightarrow> income_record \<Rightarrow> pyerror + scalar" where
  "sort_key_of field x =
     (case map_of x field of
        None \<Rightarrow> Inl (KeyError field)
      | Some v \<Rightarrow>
          (case v of
             VStr s \<Rightarrow>
               if field = ''date'' then map_sum id VInt (int_of_prefix4 v) else Inr v
           | _ \<Rightarrow> Inr v))"

text \<open>
  \<^verbatim>\<open>sorted(data, key=..., reverse=...)\<close>. The keys are computed first, one call per
  element in order. The sort itself is stable and compares keys with \<^verbatim>\<open><\<close> only; it is
  given here as the insertion sort that places an element before the first one that is
  not smaller. With \<^verbatim>\<open>reverse=True\<close> the list is reversed, sorted, and reversed again, which
  is how Python keeps a descending sort stable. On keys that are all numbers or all
  strings the result of a stable sort is unique; on two or more keys of any other mix
  some comparison the sort has to make raises \<^verbatim>\<open>TypeError\<close>, and a single key is never
  compared (\<open>sort_keyed_eq\<close> below states both for this definition).
\<close>

fun keys_of :: "('a \<Rightarrow> pyerror + scalar) \<Rightarrow> 'a list \<Rightarrow> pyerror + (scalar \<times> 'a) list" where
  "keys_of key [] = Inr []"
| "keys_of key (x # xs) =
     (case key x of
        Inl e \<Rightarrow> Inl e
      | Inr k \<Rightarrow>
          (case keys_of key xs of
             Inl e \<Rightarrow> Inl e
           | Inr ks \<Rightarrow> Inr ((k, x) # ks)))"

fun insert_keyed :: "scalar \<times> 'a \<Rightarrow> (scalar \<times> 'a) list \<Rightarrow> pyerror + (scalar \<times> 'a) list" where
  "insert_keyed x [] = Inr [x]"
| "insert_keyed x (y # ys) =
     (case py_lt (fst y) (fst x) of
        Inl e \<Rightarrow> Inl e
      | Inr True \<Rightarrow> map_sum id ((#) y) (insert_keyed x ys)
      | Inr False \<Rightarrow> Inr (x # y # ys))"

fun sort_keyed :: "(scalar \<times> 'a) list \<Rightarrow> pyerror + (scalar \<times> 'a) list" where
  "sort_keyed [] = Inr []"
| "sort_keyed (x # xs) =
     (case sort_keyed xs of
        Inl e \<Rightarrow> Inl e
      | Inr ys \<Rightarrow> insert_keyed x ys)"

definition py_sorted :: "('a \<Rightarrow> pyerror + scalar) \<Rightarrow> bool \<Rightarrow> 'a list \<Rightarrow> pyerror + 'a list" where
  "py_sorted key reverse xs =
     (case keys_of key xs of
        Inl e \<Rightarrow> Inl e
      | Inr kxs \<Rightarrow>
          map_sum id (map snd)
            (if reverse then map_sum id rev (sort_keyed (rev kxs)) else sort_keyed kxs))"

fun sort_income :: "income_record list \<Rightarrow> string \<Rightarrow> bool \<Rightarrow> pyerror + income_record list" where
  "sort_income [] field ascending = Inr []"
| "sort_income (first # others) field ascending =
     (if map_of first field = None then Inl (InvalidField field)
      else py_sorted (sort_key_of field) (\<not> ascending) (first # others))"

section \<open>The orchestrator\<close>

text \<open>Truth value of a JSON value (\<^verbatim>\<open>if sort_field:\<close>, \<^verbatim>\<open>not ascending\<close>).\<close>

fun truthy :: "jval \<Rightarrow> bool" where
  "truthy (JScalar VNone) = False"
| "truthy (JScalar (VBool b)) = b"
| "truthy (JScalar (VInt i)) = (i \<noteq> 0)"
| "truthy (JScalar (VFloat f)) = (f \<noteq> Fin 0)"
| "truthy (JScalar (VStr s)) = (s \<noteq> [])"
| "truthy (JArray xs) = (xs \<noteq> [])"
| "truthy (JObject kvs) = (kvs \<noteq> [])"

text \<open>\<^verbatim>\<open>d.get(k, default)\<close> on the decoded query.\<close>

definition jget :: "(string \<times> jval) list \<Rightarrow> string \<Rightarrow> jval \<Rightarrow> jval" where
  "jget d k dflt = (case map_of d k of None \<Rightarrow> dflt | Some v \<Rightarrow> v)"

text \<open>
  \<^verbatim>\<open>sort_income\<close> called with a \<^verbatim>\<open>sort_field\<close> that is no string: on an empty list it
  returns the empty list; otherwise \<^verbatim>\<open>field not in data[0]\<close> holds for a number or a
  boolean (the keys of a record are strings), and a list or a dict is unhashable.
\<close>

fun sort_income_nonstr :: "income_record list \<Rightarrow> jval \<Rightarrow> pyerror + income_record list" where
  "sort_income_nonstr [] field = Inr []"
| "sort_income_nonstr (first # others) (JScalar v) = Inl (InvalidFieldValue v)"
| "sort_income_nonstr (first # others) field = Inl TypeError"

text \<open>
  The body of the \<^verbatim>\<open>try\<close> block of \<^verbatim>\<open>filter_sort_income\<close>, from the decoded query
  \<^verbatim>\<open>params_dict\<close> and the global \<^verbatim>\<open>current_income\<close> to the list that is returned as JSON.
  Every exception is answered with status 400 by the handler. A query or a \<^verbatim>\<open>fields\<close>
  value that is no object has no \<^verbatim>\<open>get\<close> or \<^verbatim>\<open>items\<close>: \<^verbatim>\<open>AttributeError\<close>.
\<close>

definition filter_sort_income :: "income_record list \<Rightarrow> jval \<Rightarrow> pyerror + income_record list" where
  "filter_sort_income current_income params_dict =
     (case params_dict of
        JObject ps \<Rightarrow>
          (let sort_field = jget ps ''sort_field'' (JScalar VNone);
               ascending = jget ps ''ascending'' (JScalar (VBool True));
               filter_fields = jget ps ''fields'' (JObject [])
           in case filter_fields of
                JObject ff \<Rightarrow>
                  (case filter_income current_income ff of
                     Inl e \<Rightarrow> Inl e
                   | Inr filtered_data \<Rightarrow>
                       if truthy sort_field then
                         (case sort_field of
                            JScalar (VStr f) \<Rightarrow> sort_income filtered_data f (truthy ascending)
                          | _ \<Rightarrow> sort_income_nonstr filtered_data sort_field)
                       else Inr filtered_data)
              | _ \<Rightarrow> Inl AttributeError)
      | _ \<Rightarrow> Inl AttributeError)"

section \<open>Notions used in the statements and proofs\<close>

text \<open>
  The filters of a dict that take effect: an item whose key ends in \<^verbatim>\<open>_min\<close>, with the
  value the dict holds under the matching \<^verbatim>\<open>_max\<close> key, when that value is not \<^verbatim>\<open>None\<close>.
  A record passes when the condition of each of them is true of it.
\<close>

definition active_filters ::
  "(string \<times> jval) list \<Rightarrow> (string \<times> jval) list \<Rightarrow> (string \<times> jval \<times> jval) set" where
  "active_filters F items =
     {(base, mn, mx). \<exists>field. (field, mn) \<in> set items \<and> endswith field ''_min'' \<and>
        base = take (length field - 4) field \<and>
        map_of F (base @ ''_max'') = Some mx \<and> mx \<noteq> JScalar VNone}"

definition passes :: "(string \<times> jval) list \<Rightarrow> (string \<times> jval) list \<Rightarrow> income_record \<Rightarrow> bool" where
  "passes F items r = (\<forall>(base, mn, mx) \<in> active_filters F items. range_cond base mn mx r = Inr True)"

text \<open>The keys the loop of \<^verbatim>\<open>filter_income\<close> looks at, and a dict cut down to them.\<close>

definition range_key :: "string \<Rightarrow> bool" where
  "range_key k = (endswith k ''_min'' \<or> endswith k ''_max'')"

definition restrict_range_keys :: "(string \<times> jval) list \<Rightarrow> (string \<times> jval) list" where
  "restrict_range_keys F = filter (\<lambda>kv. range_key (fst kv)) F"

text \<open>The dataset of the scenarios: two reporting periods.\<close>

definition scenario_data :: "income_record list" where
  "scenario_data =
     [[(''revenue'', VInt 100), (''date'', VStr ''2020-01-01'')],
      [(''revenue'', VInt 200), (''date'', VStr ''2021-01-01'')]]"

text \<open>
  The year and the number the specification compares. The year of a record is the integer
  read from the first four characters of its \<^verbatim>\<open>date\<close>, 0 when it has none; it is undefined
  when the \<^verbatim>\<open>date\<close> is no string or the characters are no integer literal. The number of
  a record for a field is the value of the field, positive infinity when it has none; it
  is undefined when the value is no number.
\<close>

definition spec_year :: "income_record \<Rightarrow> int option" where
  "spec_year r =
     (case map_of r ''date'' of
        None \<Rightarrow> Some 0
      | Some (VStr s) \<Rightarrow> py_int (take 4 s)
      | Some _ \<Rightarrow> None)"

definition spec_number :: "string \<Rightarrow> income_record \<Rightarrow> pyfloat option" where
  "spec_number field r =
     (case map_of r field of
        None \<Rightarrow> Some PosInf
      | Some v \<Rightarrow> num_val v)"




text \<open>
  For the proofs, keys are ranked in a linear order: numbers by value, then strings by
  their code points, then \<^verbatim>\<open>None\<close>. Python compares two keys exactly when both are numbers
  or both are strings, and then as their ranks compare; a list of keys can be sorted
  exactly when it has at most one element or is all numbers or all strings.
\<close>

fun float_rank :: "pyfloat \<Rightarrow> int \<times> rat" where
  "float_rank NegInf = (-1, 0)"
| "float_rank (Fin q) = (0, q)"
| "float_rank PosInf = (1, 0)"

fun key_rank :: "scalar \<Rightarrow> nat \<times> (int \<times> rat) \<times> nat list" where
  "key_rank (VStr s) = (1, (0, 0), map of_char s)"
| "key_rank VNone = (2, (0, 0), [])"
| "key_rank v = (0, float_rank (the (num_val v)), [])"

definition is_num :: "scalar \<Rightarrow> bool" where
  "is_num v = (num_val v \<noteq> None)"

fun is_str :: "scalar \<Rightarrow> bool" where
  "is_str (VStr s) = True"
| "is_str v = False"

definition comparable :: "scalar \<Rightarrow> scalar \<Rightarrow> bool" where
  "comparable a b = ((is_num a \<and> is_num b) \<or> (is_str a \<and> is_str b))"

definition sortable :: "(scalar \<times> 'a) list \<Rightarrow> bool" where
  "sortable xs = (length xs \<le> 1 \<or> list_all (\<lambda>p. is_num (fst p)) xs \<or> list_all (\<lambda>p. is_str (fst p)) xs)"

abbreviation rank_of :: "scalar \<times> 'a \<Rightarrow> nat \<times> (int \<times> rat) \<times> nat list" where
  "rank_of p \<equiv> key_rank (fst p)"

section \<open>The comprehension and the loop\<close>

lemma filterM_Inr:
  "filterM p xs = Inr ys \<Longrightarrow> ys = filter (\<lambda>x. p x = Inr True) xs"
  by (induction xs arbitrary: ys) (auto split: sum.splits if_splits)

lemma filterM_defined:
  "filterM p xs = Inr ys \<Longrightarrow> x \<in> set xs \<Longrightarrow> \<exists>b. p x = Inr b"
  by (induction xs arbitrary: ys) (auto split: sum.splits if_splits)

lemma filterM_total:
  "(\<And>x. x \<in> set xs \<Longrightarrow> \<exists>b. p x = Inr b) \<Longrightarrow> filterM p xs = Inr (filter (\<lambda>x. p x = Inr True) xs)"
  by (induction xs) (fastforce split: sum.splits)+

lemma filterM_raises:
  "x \<in> set xs \<Longrightarrow> p x = Inl e \<Longrightarrow> \<exists>e'. filterM p xs = Inl e'"
  by (induction xs) (auto split: sum.splits)

lemma filterM_keeps_all:
  "(\<And>x. x \<in> set xs \<Longrightarrow> p x = Inr True) \<Longrightarrow> filterM p xs = Inr xs"
  by (induction xs) (auto split: sum.splits)

lemma active_filters_Nil: "active_filters F [] = {}"
  by (simp add: active_filters_def)

lemma active_filters_Cons:
  "active_filters F ((field, v) # rest) =
     (if endswith field ''_min'' then
        (case map_of F (take (length field - 4) field @ ''_max'') of
           None \<Rightarrow> {}
         | Some mx \<Rightarrow> if mx = JScalar VNone then {} else {(take (length field - 4) field, v, mx)})
      else {}) \<union> active_filters F rest"
  by (auto simp: active_filters_def split: option.splits)

lemma passes_Nil: "passes F [] r"
  by (simp add: passes_def active_filters_Nil)

lemma passes_Cons:
  "passes F ((field, v) # rest) r =
     ((if endswith field ''_min'' then
        (case map_of F (take (length field - 4) field @ ''_max'') of
           None \<Rightarrow> True
         | Some mx \<Rightarrow> mx = JScalar VNone \<or> range_cond (take (length field - 4) field) v mx r = Inr True)
      else True) \<and> passes F rest r)"
  by (auto simp: passes_def active_filters_Cons split: option.splits)

lemma filter_loop_Inr:
  "filter_loop F items D = Inr R \<Longrightarrow> R = filter (passes F items) D"
proof (induction F items D arbitrary: R rule: filter_loop.induct)
  case (1 F D)
  then show ?case by (simp add: passes_Nil)
next
  case (2 F field v rest D)
  show ?case
  proof (cases "endswith field ''_min''")
    case False
    with 2 show ?thesis by (simp add: passes_Cons)
  next
    case True
    show ?thesis
    proof (cases "map_of F (take (length field - 4) field @ ''_max'')")
      case None
      with True 2 show ?thesis by (simp add: passes_Cons)
    next
      case (Some mx)
      show ?thesis
      proof (cases "mx = JScalar VNone")
        case True
        with \<open>endswith field ''_min''\<close> Some 2 show ?thesis by (simp add: passes_Cons)
      next
        case False
        from "2.prems" True Some False obtain kept where
          k: "filterM (range_cond (take (length field - 4) field) v mx) D = Inr kept"
          and l: "filter_loop F rest kept = Inr R"
          by (auto split: sum.splits)
        from "2.IH"(3)[OF True Some False k l] have "R = filter (passes F rest) kept" .
        with filterM_Inr[OF k] True Some False show ?thesis
          by (simp add: passes_Cons conj_commute)
      qed
    qed
  qed
qed


lemma filter_loop_total:
  "(\<And>r base mn mx. r \<in> set D \<Longrightarrow> (base, mn, mx) \<in> active_filters F items
      \<Longrightarrow> \<exists>t. range_cond base mn mx r = Inr t)
   \<Longrightarrow> filter_loop F items D = Inr (filter (passes F items) D)"
proof (induction F items D rule: filter_loop.induct)
  case (1 F D)
  then show ?case by (simp add: passes_Nil)
next
  case (2 F field v rest D)
  have sub: "active_filters F rest \<subseteq> active_filters F ((field, v) # rest)"
    by (auto simp: active_filters_Cons)
  show ?case
  proof (cases "endswith field ''_min''")
    case False
    with "2.IH"(4) "2.prems" sub show ?thesis by (simp add: passes_Cons) blast
  next
    case True
    show ?thesis
    proof (cases "map_of F (take (length field - 4) field @ ''_max'')")
      case None
      with True "2.IH"(1) "2.prems" sub show ?thesis by (simp add: passes_Cons) blast
    next
      case (Some mx)
      show ?thesis
      proof (cases "mx = JScalar VNone")
        case True
        with \<open>endswith field ''_min''\<close> Some "2.IH"(2) "2.prems" sub show ?thesis
          by (simp add: passes_Cons) blast
      next
        case False
        let ?p = "range_cond (take (length field - 4) field) v mx"
        have act: "(take (length field - 4) field, v, mx) \<in> active_filters F ((field, v) # rest)"
          using True Some False by (simp add: active_filters_Cons)
        have k: "filterM ?p D = Inr (filter (\<lambda>r. ?p r = Inr True) D)"
          by (rule filterM_total) (use "2.prems" act in blast)
        have "filter_loop F rest (filter (\<lambda>r. ?p r = Inr True) D)
                = Inr (filter (passes F rest) (filter (\<lambda>r. ?p r = Inr True) D))"
          by (rule "2.IH"(3)[OF True Some False k]) (use "2.prems" sub in auto)
        with k True Some False show ?thesis
          by (simp add: passes_Cons conj_commute)
      qed
    qed
  qed
qed

lemma filter_loop_fixed:
  "filter_loop F items D = Inr R \<Longrightarrow> set X \<subseteq> set R \<Longrightarrow> filter_loop F items X = Inr X"
proof (induction F items D arbitrary: R rule: filter_loop.induct)
  case (1 F D)
  then show ?case by simp
next
  case (2 F field v rest D)
  show ?case
  proof (cases "endswith field ''_min''")
    case False
    with 2 show ?thesis by simp
  next
    case True
    show ?thesis
    proof (cases "map_of F (take (length field - 4) field @ ''_max'')")
      case None
      with True 2 show ?thesis by simp
    next
      case (Some mx)
      show ?thesis
      proof (cases "mx = JScalar VNone")
        case True
        with \<open>endswith field ''_min''\<close> Some 2 show ?thesis by simp
      next
        case False
        let ?p = "range_cond (take (length field - 4) field) v mx"
        from "2.prems" True Some False obtain kept where
          k: "filterM ?p D = Inr kept" and l: "filter_loop F rest kept = Inr R"
          by (auto split: sum.splits)
        have "set R \<subseteq> set kept" using filter_loop_Inr[OF l] by auto
        with "2.prems"(2) have xk: "set X \<subseteq> set kept" by blast
        with filterM_Inr[OF k] have "\<And>x. x \<in> set X \<Longrightarrow> ?p x = Inr True" by auto
        then have kx: "filterM ?p X = Inr X" by (rule filterM_keeps_all)
        from "2.IH"(3)[OF True Some False k l "2.prems"(2)] kx True Some False
        show ?thesis by simp
      qed
    qed
  qed
qed

lemma filter_loop_append:
  "filter_loop F (xs @ ys) D =
     (case filter_loop F xs D of Inl e \<Rightarrow> Inl e | Inr D' \<Rightarrow> filter_loop F ys D')"
  by (induction F xs D rule: filter_loop.induct) (auto split: option.splits sum.splits)

section \<open>Keys without a range suffix\<close>

lemma map_of_filter_key:
  "map_of (filter (\<lambda>kv. P (fst kv)) F) k = (if P k then map_of F k else None)"
  by (induction F) auto

lemma endswith_append: "endswith (b @ s) s"
  by (simp add: endswith_def)

lemma filter_loop_restrict:
  "filter_loop (restrict_range_keys F) (restrict_range_keys items) D = filter_loop F items D"
proof (induction F items D rule: filter_loop.induct)
  case (1 F D)
  then show ?case by (simp add: restrict_range_keys_def)
next
  case (2 F field v rest D)
  have look: "map_of (restrict_range_keys F) (b @ ''_max'') = map_of F (b @ ''_max'')" for b
    unfolding restrict_range_keys_def map_of_filter_key
    by (simp add: range_key_def endswith_append)
  have unf: "restrict_range_keys ((field, v) # rest) =
      (if range_key field then (field, v) # restrict_range_keys rest else restrict_range_keys rest)"
    by (simp add: restrict_range_keys_def)
  show ?case
  proof (cases "endswith field ''_min''")
    case False
    with 2 show ?thesis by (simp add: unf)
  next
    case True
    then have rk: "range_key field" by (simp add: range_key_def)
    from True 2 show ?thesis
      by (simp add: unf rk look split: option.splits sum.splits)
  qed
qed

text \<open>
  Claim C10. An entry of the filter dict whose key ends in neither \<^verbatim>\<open>_min\<close> nor \<^verbatim>\<open>_max\<close>
  has no effect: filtering with the dict and filtering with the dict restricted to the
  keys with one of the two suffixes give the same result, error or list. The instance
  below is the documented shape of \<^verbatim>\<open>fields\<close>, a field name with a two-element array,
  which leaves the dataset as it is.
\<close>

theorem unsuffixed_keys_ignored:
  "filter_income D F = filter_income D (restrict_range_keys F)"
  by (simp add: filter_income_def filter_loop_restrict)

theorem unsuffixed_keys_ignored_witness:
  "filter_income scenario_data [(''revenue'', JArray [JScalar (VInt 1000), JScalar (VInt 5000)])]
     = Inr scenario_data"
  using unsuffixed_keys_ignored [of scenario_data "[(''revenue'', JArray [JScalar (VInt 1000), JScalar (VInt 5000)])]"]
  by (simp add: restrict_range_keys_def range_key_def endswith_def filter_income_def)

section \<open>Idempotence\<close>

text \<open>
  Claim C7. When filtering a dataset succeeds, filtering the result again with the same
  filter dict succeeds and returns that result unchanged.
\<close>

theorem filter_idempotent:
  "filter_income D F = Inr R \<Longrightarrow> filter_income R F = Inr R"
  unfolding filter_income_def by (erule filter_loop_fixed) simp

theorem filter_idempotent_witness:
  "filter_income scenario_data [(''revenue_min'', JScalar (VInt 150)), (''revenue_max'', JScalar (VInt 300))]
     = Inr [[(''revenue'', VInt 200), (''date'', VStr ''2021-01-01'')]] \<and>
   filter_income [[(''revenue'', VInt 200), (''date'', VStr ''2021-01-01'')]]
       [(''revenue_min'', JScalar (VInt 150)), (''revenue_max'', JScalar (VInt 300))]
     = Inr [[(''revenue'', VInt 200), (''date'', VStr ''2021-01-01'')]]"
proof -
  have h: "filter_income scenario_data [(''revenue_min'', JScalar (VInt 150)), (''revenue_max'', JScalar (VInt 300))]
     = Inr [[(''revenue'', VInt 200), (''date'', VStr ''2021-01-01'')]]"
    by code_simp
  from h filter_idempotent [OF h] show ?thesis by (rule conjI)
qed

section \<open>Adding filters\<close>

lemma active_filters_mono:
  assumes d: "distinct (map fst F1)"
    and le: "\<And>k v. map_of F1 k = Some v \<Longrightarrow> map_of F12 k = Some v"
  shows "active_filters F1 F1 \<subseteq> active_filters F12 F12"
proof
  fix x assume x: "x \<in> active_filters F1 F1"
  obtain base mn mx where [simp]: "x = (base, mn, mx)" by (cases x)
  from x obtain field where f: "(field, mn) \<in> set F1" "endswith field ''_min''"
      "base = take (length field - 4) field" "map_of F1 (base @ ''_max'') = Some mx"
      "mx \<noteq> JScalar VNone"
    by (auto simp: active_filters_def)
  from d f(1) have "map_of F1 field = Some mn" by simp
  then have "map_of F12 field = Some mn" by (rule le)
  then have "(field, mn) \<in> set F12" by (rule map_of_SomeD)
  moreover from f(4) have "map_of F12 (base @ ''_max'') = Some mx" by (rule le)
  ultimately show "x \<in> active_filters F12 F12"
    using f(2,3,5) by (auto simp: active_filters_def)
qed

text \<open>
  Claim C8. Let \<open>F12\<close> be a dict that is the union of \<open>F1\<close> and \<open>F2\<close>, two dicts that agree
  on every key they share. When filtering succeeds with \<open>F1\<close> and with \<open>F12\<close>, the result
  for \<open>F12\<close> is a subsequence of the result for \<open>F1\<close>, which is a subsequence of the
  dataset: filtering only drops records and never reorders them.
\<close>

theorem filter_monotone:
  assumes "distinct (map fst F1)"
    and "map_of F12 = map_of F1 ++ map_of F2"
    and "\<And>k v1 v2. map_of F1 k = Some v1 \<Longrightarrow> map_of F2 k = Some v2 \<Longrightarrow> v1 = v2"
    and "filter_income D F1 = Inr R1"
    and "filter_income D F12 = Inr R12"
  shows "subseq R12 R1 \<and> subseq R1 D"
proof -
  have le: "map_of F12 k = Some v" if "map_of F1 k = Some v" for k v
    using that assms(3)[of k v] by (auto simp: assms(2) map_add_def split: option.splits)
  have sub: "active_filters F1 F1 \<subseteq> active_filters F12 F12"
    using assms(1) le by (rule active_filters_mono)
  have r1: "R1 = filter (passes F1 F1) D"
    using assms(4) unfolding filter_income_def by (rule filter_loop_Inr)
  have r12: "R12 = filter (passes F12 F12) D"
    using assms(5) unfolding filter_income_def by (rule filter_loop_Inr)
  have "passes F1 F1 r" if "passes F12 F12 r" for r
    using that sub unfolding passes_def by blast
  then have "filter (passes F12 F12) D = filter (passes F12 F12) (filter (passes F1 F1) D)"
    by (auto simp: filter_filter intro: filter_cong)
  then have eq: "R12 = filter (passes F12 F12) R1"
    using r1 r12 by simp
  have "subseq R12 R1" unfolding eq by (rule subseq_filter_left)
  moreover have "subseq R1 D" unfolding r1 by (rule subseq_filter_left)
  ultimately show ?thesis ..
qed

theorem filter_monotone_witness:
  "subseq [[(''revenue'', VInt 200), (''date'', VStr ''2021-01-01'')]] scenario_data \<and>
   subseq scenario_data scenario_data"
proof -
  let ?F1 = "[(''date_min'', JScalar (VInt 2000)), (''date_max'', JScalar (VInt 2030))]"
  let ?F2 = "[(''revenue_min'', JScalar (VInt 150)), (''revenue_max'', JScalar (VInt 300)),
              (''date_max'', JScalar (VInt 2030))]"
  let ?F12 = "[(''date_min'', JScalar (VInt 2000)), (''date_max'', JScalar (VInt 2030)),
      (''revenue_min'', JScalar (VInt 150)), (''revenue_max'', JScalar (VInt 300))]"
  have d: "distinct (map fst ?F1)" by simp
  have u: "map_of ?F12 = map_of ?F1 ++ map_of ?F2"
    by (rule ext) (simp add: map_add_def)
  have c: "\<And>k v1 v2. map_of ?F1 k = Some v1 \<Longrightarrow> map_of ?F2 k = Some v2 \<Longrightarrow> v1 = v2"
    by (simp split: if_splits)
  have r1: "filter_income scenario_data ?F1 = Inr scenario_data" by code_simp
  have r12: "filter_income scenario_data ?F12
       = Inr [[(''revenue'', VInt 200), (''date'', VStr ''2021-01-01'')]]" by code_simp
  show ?thesis by (rule filter_monotone [OF d u c r1 r12])
qed

section \<open>The date filter can raise\<close>

lemma endswith_date_min: "endswith ''date_min'' ''_min''"
  by (simp add: endswith_def)

lemma filter_loop_date_min:
  assumes "map_of F ''date_max'' = Some mx" and "mx \<noteq> JScalar VNone"
  shows "filter_loop F ((''date_min'', mn) # rest) D =
     (case filterM (range_cond ''date'' mn mx) D of
        Inl e \<Rightarrow> Inl e
      | Inr kept \<Rightarrow> filter_loop F rest kept)"
proof -
  have t: "take (length ''date_min'' - 4) ''date_min'' = ''date''" by simp
  have m: "map_of F (''date'' @ ''_max'') = Some mx" using assms(1) by simp
  show ?thesis
    unfolding filter_loop.simps t m using endswith_date_min assms(2) by simp
qed

lemma int_of_prefix4_raises:
  assumes "\<And>s. v = VStr s \<Longrightarrow> py_int (take 4 s) = None"
  shows "\<exists>e. int_of_prefix4 v = Inl e"
proof (cases v)
  case (VStr s)
  with assms[of s] show ?thesis by simp
qed simp_all

text \<open>
  Claim C9. Filtering is not total. Let the dict hold \<^verbatim>\<open>date_min\<close> and a \<^verbatim>\<open>date_max\<close> that
  is not \<^verbatim>\<open>None\<close>, and let a record reach the date filter (it is in the list the items
  before \<^verbatim>\<open>date_min\<close> leave) whose \<^verbatim>\<open>date\<close> is no string, or a string whose first four
  characters \<^verbatim>\<open>int()\<close> rejects (the empty string among them). Then \<^verbatim>\<open>filter_income\<close>
  raises.
\<close>

theorem date_filter_raises:
  assumes "F = before @ (''date_min'', mn) # after"
    and "map_of F ''date_max'' = Some mx" and "mx \<noteq> JScalar VNone"
    and "filter_loop F before D = Inr D'"
    and "r \<in> set D'"
    and "map_of r ''date'' = Some v"
    and "\<And>s. v = VStr s \<Longrightarrow> py_int (take 4 s) = None"
  shows "\<exists>e. filter_income D F = Inl e"
proof -
  have "\<exists>e. int_of_prefix4 v = Inl e"
    by (rule int_of_prefix4_raises) (rule assms(7))
  then obtain e where "int_of_prefix4 v = Inl e" ..
  then have "record_year r = Inl e"
    using assms(6) by (simp add: record_year_def get_default_def)
  then have "range_cond ''date'' mn mx r = Inl e"
    by (simp add: range_cond_def)
  with assms(5) have "\<exists>e'. filterM (range_cond ''date'' mn mx) D' = Inl e'"
    by (rule filterM_raises)
  then obtain e' where "filterM (range_cond ''date'' mn mx) D' = Inl e'" ..
  then have "filter_loop F ((''date_min'', mn) # after) D' = Inl e'"
    by (simp only: filter_loop_date_min[OF assms(2,3)] sum.case)
  then have "filter_loop F (before @ (''date_min'', mn) # after) D = Inl e'"
    using assms(4) by (simp only: filter_loop_append sum.case)
  moreover have "filter_loop F F D = filter_loop F (before @ (''date_min'', mn) # after) D"
    using assms(1) by (rule arg_cong)
  ultimately have "filter_income D F = Inl e'"
    unfolding filter_income_def by (rule ssubst[rotated])
  then show ?thesis ..
qed

theorem date_filter_raises_witness:
  "\<exists>e. filter_income [[(''revenue'', VInt 100), (''date'', VStr ''FY2020'')]]
          [(''date_min'', JScalar (VInt 2020)), (''date_max'', JScalar (VInt 2021))] = Inl e"
proof -
  let ?F = "[(''date_min'', JScalar (VInt 2020)), (''date_max'', JScalar (VInt 2021))]"
  let ?D = "[[(''revenue'', VInt 100), (''date'', VStr ''FY2020'')]]"
  have 1: "?F = [] @ (''date_min'', JScalar (VInt 2020)) # [(''date_max'', JScalar (VInt 2021))]" by simp
  have 2: "map_of ?F ''date_max'' = Some (JScalar (VInt 2021))" by simp
  have 3: "JScalar (VInt 2021) \<noteq> JScalar VNone" by simp
  have 4: "filter_loop ?F [] ?D = Inr ?D" by simp
  have 5: "[(''revenue'', VInt 100), (''date'', VStr ''FY2020'')] \<in> set ?D" by simp
  have 6: "map_of [(''revenue'', VInt 100), (''date'', VStr ''FY2020'')] ''date'' = Some (VStr ''FY2020'')" by simp
  have "py_int (take 4 ''FY2020'') = None" by code_simp
  then have 7: "\<And>s. VStr ''FY2020'' = VStr s \<Longrightarrow> py_int (take 4 s) = None" by simp
  from date_filter_raises [OF 1 2 3 4 5 6 7] show ?thesis .
qed

section \<open>A single range filter\<close>

lemma py_le_num:
  "num_val p = Some x \<Longrightarrow> num_val q = Some y \<Longrightarrow> py_le p q = Inr (fle x y)"
  by (cases p; cases q) simp_all

lemma chain_le_num:
  assumes "num_val lo = Some a" and "num_val v = Some x" and "num_val hi = Some b"
  shows "chain_le (JScalar lo) v (JScalar hi) = Inr (fle a x \<and> fle x b)"
  using assms by (cases "fle a x") (simp_all add: chain_le_def py_le_num)

lemma py_int_zeros: "py_int (take 4 ''0000-00-00'') = Some 0"
  by code_simp

lemma record_year_spec:
  "record_year r = (case spec_year r of None \<Rightarrow> record_year r | Some y \<Rightarrow> Inr y)"
proof (cases "map_of r ''date''")
  case None
  then have "record_year r = int_of_prefix4 (VStr ''0000-00-00'')"
    by (simp add: record_year_def get_default_def)
  also have "\<dots> = Inr 0"
    by (simp only: int_of_prefix4.simps py_int_zeros option.case)
  finally show ?thesis using None by (simp add: spec_year_def)
next
  case (Some v)
  then show ?thesis
    by (cases v) (simp_all add: spec_year_def record_year_def get_default_def split: option.splits)
qed

lemma spec_year_None: "spec_year r = None \<Longrightarrow> \<exists>e. record_year r = Inl e"
  by (cases "map_of r ''date''")
     (auto simp: spec_year_def record_year_def get_default_def split: scalar.splits)

lemma endswith_same_length:
  "length s = length t \<Longrightarrow> endswith (b @ s) t = (s = t)"
  by (simp add: endswith_def)

lemma active_filters_single:
  assumes d: "distinct (map fst F)"
    and s: "set F = {(base @ ''_min'', mn), (base @ ''_max'', mx)}"
    and n: "mx \<noteq> JScalar VNone"
  shows "active_filters F F = {(base, mn, mx)}"
proof -
  have mx: "map_of F (base @ ''_max'') = Some mx"
    using d s by (intro map_of_is_SomeI) simp_all
  have e1: "endswith (base @ ''_min'') ''_min''" by (rule endswith_append)
  have e2: "\<not> endswith (base @ ''_max'') ''_min''"
    by (simp add: endswith_same_length)
  have t: "take (length (base @ ''_min'') - 4) (base @ ''_min'') = base" by simp
  show ?thesis
  proof (rule set_eqI)
    fix x :: "string \<times> jval \<times> jval"
    obtain b lo hi where x: "x = (b, lo, hi)" by (cases x)
    show "x \<in> active_filters F F \<longleftrightarrow> x \<in> {(base, mn, mx)}"
    proof
      assume "x \<in> active_filters F F"
      then obtain field where f: "(field, lo) \<in> set F" "endswith field ''_min''"
          "b = take (length field - 4) field" "map_of F (b @ ''_max'') = Some hi"
        unfolding x active_filters_def by auto
      from f(1) s have "(field, lo) = (base @ ''_min'', mn) \<or> (field, lo) = (base @ ''_max'', mx)"
        by simp
      with f(2) e2 have fl: "field = base @ ''_min''" "lo = mn" by auto
      with f(3) t have "b = base" by simp
      with f(4) mx have "hi = mx" by simp
      with \<open>b = base\<close> fl x show "x \<in> {(base, mn, mx)}" by simp
    next
      assume "x \<in> {(base, mn, mx)}"
      then have "b = base" "lo = mn" "hi = mx" using x by simp_all
      moreover have "(base @ ''_min'', mn) \<in> set F" using s by simp
      ultimately have "\<exists>field. (field, lo) \<in> set F \<and> endswith field ''_min'' \<and>
          b = take (length field - 4) field \<and> map_of F (b @ ''_max'') = Some hi \<and>
          hi \<noteq> JScalar VNone"
        using e1 t mx n by (intro exI[of _ "base @ ''_min''"]) simp
      then show "x \<in> active_filters F F"
        unfolding x active_filters_def by simp
    qed
  qed
qed

lemma num_val_not_None: "num_val v = Some x \<Longrightarrow> JScalar v \<noteq> JScalar VNone"
  by (cases v) simp_all

lemma fle_PosInf_right: "fle a PosInf"
  by (cases a) simp_all

lemma fle_PosInf_left: "fle PosInf b = (b = PosInf)"
  by (cases b) simp_all

lemma single_filter_result:
  assumes d: "distinct (map fst F)"
    and s: "set F = {(base @ ''_min'', mn), (base @ ''_max'', mx)}"
    and n: "mx \<noteq> JScalar VNone"
    and t: "\<And>r. r \<in> set D \<Longrightarrow> range_cond base mn mx r = Inr (P r)"
  shows "filter_income D F = Inr (filter P D)"
proof -
  have act: "active_filters F F = {(base, mn, mx)}"
    using d s n by (rule active_filters_single)
  have "filter_income D F = Inr (filter (passes F F) D)"
    unfolding filter_income_def
  proof (rule filter_loop_total)
    fix r b lo hi
    assume "r \<in> set D" and "(b, lo, hi) \<in> active_filters F F"
    then show "\<exists>t. range_cond b lo hi r = Inr t"
      using t unfolding act by simp
  qed
  moreover have "filter (passes F F) D = filter P D"
    by (rule filter_cong) (simp_all add: passes_def act t)
  ultimately show ?thesis by simp
qed

text \<open>
  Claim C3. Let the filter dict hold exactly \<^verbatim>\<open>date_min\<close> and \<^verbatim>\<open>date_max\<close>, both numbers
  \<open>a\<close> and \<open>b\<close>, and let every record have a year (no \<^verbatim>\<open>date\<close>, or a string with a
  readable four-character prefix). Then filtering succeeds and keeps exactly the records
  with \<open>a \<le> year \<le> b\<close>, where a record without \<^verbatim>\<open>date\<close> counts as year 0: it is kept
  iff \<open>a \<le> 0 \<le> b\<close>, so it fails every filter whose minimum is above 0.
\<close>

theorem date_filter_years:
  assumes "distinct (map fst F)"
    and "set F = {(''date_min'', JScalar mn), (''date_max'', JScalar mx)}"
    and "num_val mn = Some a" and "num_val mx = Some b"
    and "\<forall>r \<in> set D. spec_year r \<noteq> None"
  shows "\<exists>R. filter_income D F = Inr R \<and>
           R = filter (\<lambda>r. case spec_year r of
                              None \<Rightarrow> False
                            | Some y \<Rightarrow> fle a (Fin (of_int y)) \<and> fle (Fin (of_int y)) b) D \<and>
           (\<forall>r \<in> set D. map_of r ''date'' = None \<longrightarrow>
              (r \<in> set R \<longleftrightarrow> fle a (Fin 0) \<and> fle (Fin 0) b))"
proof -
  let ?P = "\<lambda>r. case spec_year r of
                  None \<Rightarrow> False
                | Some y \<Rightarrow> fle a (Fin (of_int y)) \<and> fle (Fin (of_int y)) b"
  have s: "set F = {(''date'' @ ''_min'', JScalar mn), (''date'' @ ''_max'', JScalar mx)}"
    using assms(2) by simp
  have n: "JScalar mx \<noteq> JScalar VNone"
    using assms(4) by (rule num_val_not_None)
  have t: "range_cond ''date'' (JScalar mn) (JScalar mx) r = Inr (?P r)" if "r \<in> set D" for r
  proof -
    from that assms(5) obtain y where y: "spec_year r = Some y" by auto
    then have "record_year r = Inr y" using record_year_spec[of r] by simp
    moreover have "num_val (VInt y) = Some (Fin (of_int y))" by simp
    ultimately show ?thesis
      using y chain_le_num[OF assms(3) _ assms(4), of "VInt y"] by (simp add: range_cond_def)
  qed
  have eq: "filter_income D F = Inr (filter ?P D)"
    using assms(1) s n t by (rule single_filter_result)
  have "r \<in> set (filter ?P D) \<longleftrightarrow> fle a (Fin 0) \<and> fle (Fin 0) b"
    if "r \<in> set D" and "map_of r ''date'' = None" for r
    using that by (simp add: spec_year_def)
  with eq show ?thesis by blast
qed

theorem date_filter_years_witness:
  "(\<exists>R. filter_income scenario_data
            [(''date_min'', JScalar (VInt 2020)), (''date_max'', JScalar (VInt 2020))] = Inr R \<and>
        R = filter (\<lambda>r. case spec_year r of
                           None \<Rightarrow> False
                         | Some y \<Rightarrow> fle (Fin (of_int 2020)) (Fin (of_int y)) \<and>
                                     fle (Fin (of_int y)) (Fin (of_int 2020))) scenario_data \<and>
        (\<forall>r \<in> set scenario_data. map_of r ''date'' = None \<longrightarrow>
           (r \<in> set R \<longleftrightarrow> fle (Fin (of_int 2020)) (Fin 0) \<and> fle (Fin 0) (Fin (of_int 2020))))) \<and>
   filter_income scenario_data
     [(''date_min'', JScalar (VInt 2020)), (''date_max'', JScalar (VInt 2020))]
     = Inr [[(''revenue'', VInt 100), (''date'', VStr ''2020-01-01'')]]"
proof -
  let ?F = "[(''date_min'', JScalar (VInt 2020)), (''date_max'', JScalar (VInt 2020))]"
  have 1: "distinct (map fst ?F)" by simp
  have 2: "set ?F = {(''date_min'', JScalar (VInt 2020)), (''date_max'', JScalar (VInt 2020))}"
    by simp
  have 3: "num_val (VInt 2020) = Some (Fin (of_int 2020))" by simp
  have 4: "\<forall>r \<in> set scenario_data. spec_year r \<noteq> None" by code_simp
  have 5: "filter_income scenario_data ?F
     = Inr [[(''revenue'', VInt 100), (''date'', VStr ''2020-01-01'')]]" by code_simp
  from date_filter_years [OF 1 2 3 3 4] 5 show ?thesis by (rule conjI)
qed

text \<open>
  Claim C4. Let the filter dict hold exactly the two bounds of a field other than
  \<^verbatim>\<open>date\<close>, both numbers \<open>a\<close> and \<open>b\<close>, and let every record that has the field hold a
  number there. Then filtering succeeds and keeps exactly the records with
  \<open>a \<le> value \<le> b\<close>, where a record without the field is compared as positive infinity:
  it is kept iff the upper bound \<open>b\<close> is positive infinity itself, so every finite upper
  bound excludes it. The instance is a record without the field under the bounds 0 and
  100.
\<close>

theorem numeric_filter_range:
  assumes "field \<noteq> ''date''"
    and "distinct (map fst F)"
    and "set F = {(field @ ''_min'', JScalar mn), (field @ ''_max'', JScalar mx)}"
    and "num_val mn = Some a" and "num_val mx = Some b"
    and "\<forall>r \<in> set D. spec_number field r \<noteq> None"
  shows "\<exists>R. filter_income D F = Inr R \<and>
           R = filter (\<lambda>r. case spec_number field r of
                              None \<Rightarrow> False
                            | Some x \<Rightarrow> fle a x \<and> fle x b) D \<and>
           (\<forall>r \<in> set D. map_of r field = None \<longrightarrow> (r \<in> set R \<longleftrightarrow> b = PosInf))"
proof -
  let ?P = "\<lambda>r. case spec_number field r of
                  None \<Rightarrow> False
                | Some x \<Rightarrow> fle a x \<and> fle x b"
  have n: "JScalar mx \<noteq> JScalar VNone"
    using assms(5) by (rule num_val_not_None)
  have t: "range_cond field (JScalar mn) (JScalar mx) r = Inr (?P r)" if "r \<in> set D" for r
  proof -
    from that assms(6) obtain x where x: "spec_number field r = Some x" by auto
    then have "num_val (get_default r field (VFloat PosInf)) = Some x"
      by (simp add: spec_number_def get_default_def split: option.splits)
    from chain_le_num[OF assms(4) this assms(5)] x assms(1) show ?thesis
      by (simp add: range_cond_def)
  qed
  have eq: "filter_income D F = Inr (filter ?P D)"
    using assms(2,3) n t by (rule single_filter_result)
  have "r \<in> set (filter ?P D) \<longleftrightarrow> b = PosInf"
    if "r \<in> set D" and "map_of r field = None" for r
    using that by (simp add: spec_number_def fle_PosInf_right fle_PosInf_left)
  with eq show ?thesis by blast
qed

theorem numeric_filter_range_witness:
  "(\<exists>R. filter_income [[(''eps'', VInt 50)], [(''date'', VStr ''2020-01-01'')]]
            [(''eps_min'', JScalar (VInt 0)), (''eps_max'', JScalar (VInt 100))] = Inr R \<and>
        R = filter (\<lambda>r. case spec_number ''eps'' r of
                           None \<Rightarrow> False
                         | Some x \<Rightarrow> fle (Fin (of_int 0)) x \<and> fle x (Fin (of_int 100)))
              [[(''eps'', VInt 50)], [(''date'', VStr ''2020-01-01'')]] \<and>
        (\<forall>r \<in> set [[(''eps'', VInt 50)], [(''date'', VStr ''2020-01-01'')]].
           map_of r ''eps'' = None \<longrightarrow> (r \<in> set R \<longleftrightarrow> Fin (of_int 100) = PosInf))) \<and>
   filter_income [[(''eps'', VInt 50)], [(''date'', VStr ''2020-01-01'')]]
     [(''eps_min'', JScalar (VInt 0)), (''eps_max'', JScalar (VInt 100))]
     = Inr [[(''eps'', VInt 50)]]"
proof -
  let ?F = "[(''eps_min'', JScalar (VInt 0)), (''eps_max'', JScalar (VInt 100))]"
  let ?D = "[[(''eps'', VInt 50)], [(''date'', VStr ''2020-01-01'')]]"
  have 0: "''eps'' \<noteq> ''date''" by simp
  have 1: "distinct (map fst ?F)" by simp
  have 2: "set ?F = {(''eps'' @ ''_min'', JScalar (VInt 0)), (''eps'' @ ''_max'', JScalar (VInt 100))}"
    by simp
  have 3: "num_val (VInt 0) = Some (Fin (of_int 0))" by simp
  have 4: "num_val (VInt 100) = Some (Fin (of_int 100))" by simp
  have 5: "\<forall>r \<in> set ?D. spec_number ''eps'' r \<noteq> None" by (simp add: spec_number_def)
  have 6: "filter_income ?D ?F = Inr [[(''eps'', VInt 50)]]" by code_simp
  from numeric_filter_range [OF 0 1 2 3 4 5] 6 show ?thesis by (rule conjI)
qed

section \<open>Keys and their order\<close>

lemma fle_rank: "fle a b = (float_rank a \<le> float_rank b)"
  by (cases a; cases b) simp_all

lemma flt_rank: "flt a b = (float_rank a < float_rank b)"
  by (simp add: flt_def fle_rank not_le)


lemma str_lt_rank: "str_lt s t = (map of_char s < (map of_char t :: nat list))"
  by (induction s t rule: str_lt.induct) auto

lemma key_rank_num: "num_val v = Some x \<Longrightarrow> key_rank v = (0, float_rank x, [])"
  by (cases v) simp_all

lemma py_lt_rank: "py_lt a b = Inr t \<Longrightarrow> t = (key_rank a < key_rank b)"
  by (cases a; cases b) (auto simp: flt_rank str_lt_rank)

lemma py_lt_error: "py_lt a b = Inl e \<Longrightarrow> e = TypeError"
  by (cases a; cases b) auto

lemma py_lt_comparable: "comparable a b \<Longrightarrow> py_lt a b = Inr (key_rank a < key_rank b)"
  by (cases a; cases b) (auto simp: comparable_def is_num_def flt_rank str_lt_rank)

lemma py_lt_incomparable: "\<not> comparable a b \<Longrightarrow> py_lt a b = Inl TypeError"
  by (cases a; cases b) (auto simp: comparable_def is_num_def)




section \<open>The sort against the library's stable insertion sort\<close>

lemma insert_keyed_ok:
  "(\<And>y. y \<in> set ys \<Longrightarrow> comparable (fst y) (fst x))
     \<Longrightarrow> insert_keyed x ys = Inr (insort_key rank_of x ys)"
proof (induction ys)
  case Nil
  show ?case by simp
next
  case (Cons y ys)
  have c: "py_lt (fst y) (fst x) = Inr (rank_of y < rank_of x)"
    by (rule py_lt_comparable) (simp add: Cons.prems)
  have ih: "insert_keyed x ys = Inr (insort_key rank_of x ys)"
    by (rule Cons.IH) (simp add: Cons.prems)
  show ?case
  proof (cases "rank_of y < rank_of x")
    case True
    then have "\<not> rank_of x \<le> rank_of y" by (simp only: not_le)
    then have "insort_key rank_of x (y # ys) = y # insort_key rank_of x ys"
      by (simp only: insort_key.simps if_False)
    moreover have "insert_keyed x (y # ys) = Inr (y # insort_key rank_of x ys)"
      using True by (simp only: insert_keyed.simps c ih sum.case bool.case map_sum.simps id_apply)
    ultimately show ?thesis by (simp only:)
  next
    case False
    then have "rank_of x \<le> rank_of y" by (simp only: not_less)
    then have "insort_key rank_of x (y # ys) = x # y # ys"
      by (simp only: insort_key.simps if_True)
    moreover have "insert_keyed x (y # ys) = Inr (x # y # ys)"
      using False by (simp only: insert_keyed.simps c sum.case bool.case)
    ultimately show ?thesis by (simp only:)
  qed
qed

lemma insert_keyed_fail:
  "\<not> comparable (fst y) (fst x) \<Longrightarrow> insert_keyed x (y # ys) = Inl TypeError"
  by (simp add: py_lt_incomparable)

lemma comparable_cases:
  "comparable a b \<Longrightarrow> (is_num a \<and> is_num b \<and> \<not> is_str a \<and> \<not> is_str b) \<or>
                       (is_str a \<and> is_str b \<and> \<not> is_num a \<and> \<not> is_num b)"
  by (cases a; cases b) (auto simp: comparable_def is_num_def)

lemma sortable_Cons:
  "sortable (x # xs) \<Longrightarrow> sortable xs \<and> (\<forall>y \<in> set xs. comparable (fst y) (fst x))"
  by (cases xs) (auto simp: sortable_def comparable_def list_all_iff)

lemma not_sortable_Cons:
  assumes "\<not> sortable (x # xs)" and "sortable xs" and "y \<in> set xs"
  shows "\<not> comparable (fst y) (fst x)"
proof
  assume "comparable (fst y) (fst x)"
  then consider "is_num (fst y)" "is_num (fst x)" "\<not> is_str (fst y)"
    | "is_str (fst y)" "is_str (fst x)" "\<not> is_num (fst y)"
    using comparable_cases by blast
  then show False
  proof cases
    case 1
    from assms(2) have "list_all (\<lambda>p. is_num (fst p)) xs"
      unfolding sortable_def
    proof (elim disjE)
      assume "length xs \<le> 1"
      with assms(3) have "xs = [y]" by (cases xs) auto
      with 1 show ?thesis by simp
    next
      assume "list_all (\<lambda>p. is_str (fst p)) xs"
      with assms(3) 1 show ?thesis by (auto simp: list_all_iff)
    qed
    with 1 assms(1) show False by (simp add: sortable_def)
  next
    case 2
    from assms(2) have "list_all (\<lambda>p. is_str (fst p)) xs"
      unfolding sortable_def
    proof (elim disjE)
      assume "length xs \<le> 1"
      with assms(3) have "xs = [y]" by (cases xs) auto
      with 2 show ?thesis by simp
    next
      assume "list_all (\<lambda>p. is_num (fst p)) xs"
      with assms(3) 2 show ?thesis by (auto simp: list_all_iff)
    qed
    with 2 assms(1) show False by (simp add: sortable_def)
  qed
qed

lemma sort_keyed_eq:
  "sort_keyed xs = (if sortable xs then Inr (sort_key rank_of xs) else Inl TypeError)"
proof (induction xs)
  case Nil
  show ?case by (simp add: sortable_def)
next
  case (Cons x xs)
  show ?case
  proof (cases "sortable (x # xs)")
    case True
    then have s: "sortable xs" and c: "\<forall>y \<in> set xs. comparable (fst y) (fst x)"
      using sortable_Cons by blast+
    have "insert_keyed x (sort_key rank_of xs) = Inr (insort_key rank_of x (sort_key rank_of xs))"
      by (rule insert_keyed_ok) (use c in simp)
    with True s Cons.IH show ?thesis by simp
  next
    case False
    show ?thesis
    proof (cases "sortable xs")
      case s: False
      with False Cons.IH show ?thesis by simp
    next
      case s: True
      from False have "xs \<noteq> []" by (auto simp: sortable_def)
      then have "sort_key rank_of xs \<noteq> []"
        by (metis length_sort length_0_conv)
      then obtain y ys where ys: "sort_key rank_of xs = y # ys"
        by (cases "sort_key rank_of xs") auto
      then have "y \<in> set xs" by (metis list.set_intros(1) set_sort)
      with False s have "\<not> comparable (fst y) (fst x)" by (rule not_sortable_Cons)
      then have "insert_keyed x (y # ys) = Inl TypeError" by (rule insert_keyed_fail)
      with False s Cons.IH ys show ?thesis by simp
    qed
  qed
qed

lemma sortable_rev: "sortable (rev xs) = sortable xs"
  by (simp add: sortable_def list_all_iff)


lemma keys_of_Inl:
  "keys_of key xs = Inl e \<Longrightarrow> \<exists>x \<in> set xs. key x = Inl e"
  by (induction xs) (auto split: sum.splits)

lemma py_sorted_eq:
  "py_sorted key rv xs =
     (case keys_of key xs of
        Inl e \<Rightarrow> Inl e
      | Inr kxs \<Rightarrow>
          if sortable kxs then
            Inr (map snd (if rv then rev (sort_key rank_of (rev kxs)) else sort_key rank_of kxs))
          else Inl TypeError)"
  by (simp add: py_sorted_def sort_keyed_eq sortable_rev split: sum.splits)





section \<open>Descending order and reversal\<close>







section \<open>The field check of the sort\<close>

lemma int_of_prefix4_error: "int_of_prefix4 v = Inl e \<Longrightarrow> e = TypeError \<or> e = ValueError"
  by (cases v) (auto split: option.splits)

lemma sort_key_of_error:
  "sort_key_of field x = Inl e \<Longrightarrow> e = KeyError field \<or> e = TypeError \<or> e = ValueError"
proof (cases "map_of x field")
  case None
  assume "sort_key_of field x = Inl e"
  with None show ?thesis by (simp add: sort_key_of_def)
next
  case (Some v)
  assume e: "sort_key_of field x = Inl e"
  show ?thesis
  proof (cases v)
    case (VStr s)
    with e Some have "int_of_prefix4 v = Inl e"
      by (cases "int_of_prefix4 v") (simp_all add: sort_key_of_def split: if_splits)
    then show ?thesis using int_of_prefix4_error by blast
  qed (use e Some in \<open>simp_all add: sort_key_of_def\<close>)
qed

lemma py_sorted_error:
  assumes "py_sorted (sort_key_of field) rv D = Inl e"
  shows "e = KeyError field \<or> e = TypeError \<or> e = ValueError"
proof (cases "keys_of (sort_key_of field) D")
  case (Inl e')
  with assms have "e' = e" by (simp add: py_sorted_eq)
  with Inl obtain x where "sort_key_of field x = Inl e"
    using keys_of_Inl by blast
  then show ?thesis by (rule sort_key_of_error)
next
  case (Inr kxs)
  with assms show ?thesis by (simp add: py_sorted_eq split: if_splits)
qed

text \<open>
  Claim C5. Sorting the empty list returns the empty list for any field. On a non-empty
  list whose first record lacks the field, the sort fails with the invalid-field error
  naming that field. Only the first record is checked: when the first record has the
  field, the invalid-field error is never raised, whatever the other records hold (a
  later record without the field raises \<^verbatim>\<open>KeyError\<close> from the key function instead).
\<close>

theorem sort_field_check:
  "sort_income [] field ascending = Inr [] \<and>
   (map_of first field = None \<longrightarrow>
      sort_income (first # others) field ascending = Inl (InvalidField field)) \<and>
   (map_of first field \<noteq> None \<longrightarrow>
      (\<forall>g. sort_income (first # others) field ascending \<noteq> Inl (InvalidField g)))"
proof (intro conjI impI allI)
  show "sort_income [] field ascending = Inr []" by simp
next
  assume "map_of first field = None"
  then show "sort_income (first # others) field ascending = Inl (InvalidField field)" by simp
next
  fix g assume p: "map_of first field \<noteq> None"
  show "sort_income (first # others) field ascending \<noteq> Inl (InvalidField g)"
  proof
    assume "sort_income (first # others) field ascending = Inl (InvalidField g)"
    with p have "py_sorted (sort_key_of field) (\<not> ascending) (first # others) = Inl (InvalidField g)"
      by (simp only: sort_income.simps if_False)
    from py_sorted_error[OF this] show False by simp
  qed
qed

theorem sort_field_check_witness:
  "sort_income [] ''no such field'' True = Inr [] \<and>
   sort_income [[(''date'', VStr ''2020-01-01'')], [(''revenue'', VInt 100)]] ''revenue'' True
     = Inl (InvalidField ''revenue'') \<and>
   (\<forall>g. sort_income [[(''revenue'', VInt 100)], [(''date'', VStr ''2020-01-01'')]] ''revenue'' True
          \<noteq> Inl (InvalidField g)) \<and>
   sort_income [[(''revenue'', VInt 100)], [(''date'', VStr ''2020-01-01'')]] ''revenue'' True
     = Inl (KeyError ''revenue'')"
proof -
  have a: "map_of [(''date'', VStr ''2020-01-01'')] ''revenue'' = None" by simp
  have b: "map_of [(''revenue'', VInt 100)] ''revenue'' \<noteq> None" by simp
  note t1 = sort_field_check [of "''no such field''" True "[(''date'', VStr ''2020-01-01'')]"
      "[[(''revenue'', VInt 100)]]"]
  note t2 = sort_field_check [of "''revenue''" True "[(''date'', VStr ''2020-01-01'')]"
      "[[(''revenue'', VInt 100)]]"]
  note t3 = sort_field_check [of "''revenue''" True "[(''revenue'', VInt 100)]"
      "[[(''date'', VStr ''2020-01-01'')]]"]
  have 1: "sort_income [] ''no such field'' True = Inr []" by (rule conjunct1[OF t1])
  have 2: "sort_income [[(''date'', VStr ''2020-01-01'')], [(''revenue'', VInt 100)]] ''revenue'' True
     = Inl (InvalidField ''revenue'')"
    by (rule mp[OF conjunct1[OF conjunct2[OF t2]] a])
  have 3: "\<forall>g. sort_income [[(''revenue'', VInt 100)], [(''date'', VStr ''2020-01-01'')]] ''revenue'' True
          \<noteq> Inl (InvalidField g)"
    by (rule mp[OF conjunct2[OF conjunct2[OF t3]] b])
  have 4: "sort_income [[(''revenue'', VInt 100)], [(''date'', VStr ''2020-01-01'')]] ''revenue'' True
     = Inl (KeyError ''revenue'')" by code_simp
  show ?thesis by (intro conjI) (rule 1, rule 2, rule 3, rule 4)
qed

section \<open>The orchestrator and the documented shape of \<^verbatim>\<open>fields\<close>\<close>

text \<open>
  Claim C2 says that an entry \<^verbatim>\<open>{name: [min, max]}\<close> of \<^verbatim>\<open>fields\<close> is expanded into the
  keys \<^verbatim>\<open>name_min\<close> and \<^verbatim>\<open>name_max\<close> before filtering. The code passes \<^verbatim>\<open>fields\<close> to
  \<^verbatim>\<open>filter_income\<close> as it is: with the entry \<^verbatim>\<open>{"revenue": [150, 300]}\<close> the whole
  dataset comes back, where the expanded keys keep the second record only.
\<close>

theorem fields_entry_not_expanded:
  "filter_sort_income scenario_data
     (JObject [(''fields'', JObject [(''revenue'', JArray [JScalar (VInt 150), JScalar (VInt 300)])])])
     = Inr scenario_data \<and>
   filter_income scenario_data
     [(''revenue_min'', JScalar (VInt 150)), (''revenue_max'', JScalar (VInt 300))]
     = Inr [[(''revenue'', VInt 200), (''date'', VStr ''2021-01-01'')]]"
  by code_simp

end
